theory Spec2Isabelle
  imports Main "HOL-Library.Char_ord" "HOL-Library.List_Lexorder" "HOL-Library.Multiset"
begin

section \<open>Longest words made of other words: the model of findLongest.cpp\<close>

text \<open>
  The program reads a word list, cleans every line, stores the words in a hashed set and in
  a table from word length to the words of that length, and then tests every word, longest
  first, for being a concatenation of other words of the set.

  Modelling decisions.
  \<^item> \<^verbatim>\<open>std::string\<close> is \<open>string\<close> (a list of 8-bit characters).
  \<^item> \<^verbatim>\<open>FLStringSet\<close> (\<^verbatim>\<open>std::unordered_set<std::string>\<close>) is \<open>string set\<close>;
    \<^verbatim>\<open>count(x) > 0\<close> is \<open>x \<in> S\<close>.
  \<^item> \<^verbatim>\<open>FLLengthMap\<close> (\<^verbatim>\<open>std::unordered_map<size_t, std::vector<std::string *>>\<close>) is an
    association list from lengths to lists of words. The order of its entries stands for
    the iteration order of the hash table, which C++ leaves open. The pointers point to the
    elements of the set, which are never changed, so a pointer is modelled by the string it
    points to.
  \<^item> The variables of type \<^verbatim>\<open>int\<close> are modelled by the unbounded \<open>int\<close>. This is
    exact where the conversions between \<^verbatim>\<open>size_t\<close> and \<^verbatim>\<open>int\<close> of the source keep the
    value: for words shorter than \<open>2^31\<close> and tables in \<open>int_range\<close> (below). Beyond
    that range the source wraps and the model does not, so the theorems that depend on it
    have the range as a hypothesis. The conversions \<^verbatim>\<open>word.length() - 1\<close> and
    \<^verbatim>\<open>keyList.size() - 1\<close> at size 0 give \<open>-1\<close> in the source and in the model.
  \<^item> The input file is the list of its lines as \<^verbatim>\<open>std::getline\<close> returns them, or \<open>None\<close>
    when it cannot be opened. The flags \<^verbatim>\<open>kDoDebug\<close> and \<^verbatim>\<open>kDoPreSort\<close> are globals set
    from the command line; \<open>kDoPreSort\<close> is a parameter of the functions that read it.
  \<^item> The \<^verbatim>\<open>printf\<close> calls guarded by \<^verbatim>\<open>kDoDebug\<close> do not change any result and are left
    out, except for the line "Trying word", which is kept as the list \<open>tried\<close> of the
    scanner.
\<close>

type_synonym FLStringSet = "string set"
type_synonym FLLengthMap = "(nat \<times> string list) list"

subsection \<open>The decomposition test\<close>

text \<open>
  \<^verbatim>\<open>s.substr(pos, n)\<close>: the at most \<open>n\<close> characters from position \<open>pos\<close> on. The source
  calls it with \<open>0 \<le> pos \<le> s.length()\<close> only (the lengths tested are \<open>1\<close> to \<open>L - 1\<close>, see \<open>shrink_loop_trace_tests\<close>), where
  it does not throw.
\<close>

definition substr :: "string \<Rightarrow> int \<Rightarrow> int \<Rightarrow> string" where
  "substr s pos n = take (nat n) (drop (nat pos) s)"

lemma substr_suffix_shorter:
  assumes "0 < sublen" and "substr word 0 sublen \<in> S"
    and "substr word sublen remlen \<notin> S"
  shows "length (substr word sublen remlen) < length word"
proof -
  have "word \<noteq> []"
    using assms by (auto simp: substr_def)
  moreover have "length (substr word sublen remlen) \<le> length word - nat sublen"
    by (simp add: substr_def)
  ultimately show ?thesis
    using assms(1) by (cases word) auto
qed

text \<open>
  \<^verbatim>\<open>wordIsMadeOfOtherWords\<close> and its \<^verbatim>\<open>while (sublen > 0)\<close> loop. The loop is the
  function \<open>shrink_loop\<close> on the loop variables \<open>sublen\<close> and \<open>remlen\<close>; the two
  \<^verbatim>\<open>return true\<close> statements and the final \<^verbatim>\<open>return false\<close> are its three results.
\<close>

function wordIsMadeOfOtherWords :: "string \<Rightarrow> FLStringSet \<Rightarrow> bool"
  and shrink_loop :: "string \<Rightarrow> FLStringSet \<Rightarrow> int \<Rightarrow> int \<Rightarrow> bool" where
  "wordIsMadeOfOtherWords word stringSet =
     shrink_loop word stringSet (int (length word) - 1) 1"
| "shrink_loop word stringSet sublen remlen =
     (if sublen > 0 then
        (let partWord = substr word 0 sublen in
         if partWord \<in> stringSet then
           (let remainingString = substr word sublen remlen in
            if remainingString \<in> stringSet then True
            else if wordIsMadeOfOtherWords remainingString stringSet then True
            else shrink_loop word stringSet (sublen - 1) (remlen + 1))
         else shrink_loop word stringSet (sublen - 1) (remlen + 1))
      else False)"
  by pat_completeness auto
termination
  by (relation "inv_image (less_than <*lex*> less_than)
     (\<lambda>x. case x of Inl (w, S) \<Rightarrow> (length w, Suc (length w))
                   | Inr (w, S, sl, rl) \<Rightarrow> (length w, nat sl))")
    (auto simp: substr_suffix_shorter intro!: wf_inv_image wf_lex_prod)

declare shrink_loop.simps [simp del]
declare wordIsMadeOfOtherWords.simps [simp del]

text \<open>
  One activation of the loop, instrumented: beside the result it returns the values of
  \<open>sublen\<close> for which a primary substring was tested, in the order of the tests, and the
  arguments of the recursive calls the activation made. The result of a recursive call is
  the one of \<open>wordIsMadeOfOtherWords\<close>.
\<close>

function shrink_loop_trace ::
  "string \<Rightarrow> FLStringSet \<Rightarrow> int \<Rightarrow> int \<Rightarrow> bool \<times> int list \<times> string list" where
  "shrink_loop_trace word stringSet sublen remlen =
     (if sublen > 0 then
        (let partWord = substr word 0 sublen in
         if partWord \<in> stringSet then
           (let remainingString = substr word sublen remlen in
            if remainingString \<in> stringSet then (True, [sublen], [])
            else if wordIsMadeOfOtherWords remainingString stringSet
              then (True, [sublen], [remainingString])
            else (case shrink_loop_trace word stringSet (sublen - 1) (remlen + 1) of
                    (r, tests, calls) \<Rightarrow> (r, sublen # tests, remainingString # calls)))
         else (case shrink_loop_trace word stringSet (sublen - 1) (remlen + 1) of
                 (r, tests, calls) \<Rightarrow> (r, sublen # tests, calls)))
      else (False, [], []))"
  by pat_completeness auto
termination
  by (relation "measure (\<lambda>(w, S, sl, rl). nat sl)") auto

declare shrink_loop_trace.simps [simp del]

definition wordIsMadeOfOtherWords_trace ::
  "string \<Rightarrow> FLStringSet \<Rightarrow> bool \<times> int list \<times> string list" where
  "wordIsMadeOfOtherWords_trace word stringSet =
     shrink_loop_trace word stringSet (int (length word) - 1) 1"

definition prefix_tests :: "string \<Rightarrow> FLStringSet \<Rightarrow> int list" where
  "prefix_tests word stringSet = fst (snd (wordIsMadeOfOtherWords_trace word stringSet))"

definition recursive_calls :: "string \<Rightarrow> FLStringSet \<Rightarrow> string list" where
  "recursive_calls word stringSet = snd (snd (wordIsMadeOfOtherWords_trace word stringSet))"

text \<open>
  The reference definition of the specification: a word is decomposable when it is the
  concatenation of two or more members of the store, each strictly shorter than the word.
\<close>

definition spec_decomposable :: "string \<Rightarrow> string set \<Rightarrow> bool" where
  "spec_decomposable w S \<longleftrightarrow>
     (\<exists>ws. 2 \<le> length ws \<and> concat ws = w \<and> (\<forall>p \<in> set ws. p \<in> S \<and> length p < length w))"

text \<open>
  The search with the order of the candidates left open: \<open>ord L\<close> lists the lengths of
  the primary substrings to try for a word of length \<open>L\<close>, in the order of trial. Of
  these, the lengths from \<open>1\<close> to \<open>L - 1\<close> are tried, and a candidate succeeds under the
  rule of the specification: the prefix is a member, and the rest is a member or is found
  decomposable by the same search. The source is the instance that counts down from
  \<open>L - 1\<close>.
\<close>

function search_in_order :: "(nat \<Rightarrow> nat list) \<Rightarrow> string \<Rightarrow> FLStringSet \<Rightarrow> bool" where
  "search_in_order ord word S =
     list_ex (\<lambda>k. take k word \<in> S \<and>
                (drop k word \<in> S \<or> search_in_order ord (drop k word) S))
       (filter (\<lambda>k. 0 < k \<and> k < length word) (ord (length word)))"
  by pat_completeness auto
termination
  by (relation "measure (\<lambda>(ord, word, S). length word)") auto

declare search_in_order.simps [simp del]

subsection \<open>Cleaning a line\<close>

text \<open>
  \<^verbatim>\<open>toLowerString\<close> maps \<^verbatim>\<open>std::tolower\<close> over the string; in the C locale it changes
  the letters \<open>A\<close> to \<open>Z\<close> only. \<^verbatim>\<open>trimEndOfLine\<close> pops line feeds and carriage returns
  off the end. \<^verbatim>\<open>trimLeadingWhitespace\<close> and \<^verbatim>\<open>trimTrailingWhitespace\<close> look for the
  last leading and the first trailing space with a loop (\<open>leading_scan\<close>,
  \<open>trailing_scan\<close>, on the loop variables \<open>current\<close> and \<open>end\<close>) and erase with one
  \<^verbatim>\<open>s.replace(pos, len, "")\<close>, which is \<open>replace_empty\<close>. The comparisons
  \<^verbatim>\<open>strncmp(&c, " ", 1) == 0\<close> compare one character.
\<close>

definition tolower :: "char \<Rightarrow> char" where
  "tolower c = (if CHR ''A'' \<le> c \<and> c \<le> CHR ''Z'' then char_of (of_char c + (32::nat)) else c)"

definition toLowerString :: "string \<Rightarrow> string" where
  "toLowerString s = (if s = [] then s else map tolower s)"

function trimEndOfLine :: "string \<Rightarrow> string" where
  "trimEndOfLine s =
     (if s \<noteq> [] \<and> (last s = CHR 0x0A \<or> last s = CHR 0x0D) then trimEndOfLine (butlast s)
      else s)"
  by pat_completeness auto
termination
  by (relation "measure length") (auto simp: less_Suc_eq_le [symmetric])

declare trimEndOfLine.simps [simp del]

definition replace_empty :: "string \<Rightarrow> int \<Rightarrow> int \<Rightarrow> string" where
  "replace_empty s pos len = take (nat pos) s @ drop (nat pos + nat len) s"

function leading_scan :: "string \<Rightarrow> int \<Rightarrow> int \<Rightarrow> int" where
  "leading_scan s current end =
     (if current < int (length s) \<and> s ! nat current = CHR '' ''
      then leading_scan s (current + 1) current else end)"
  by pat_completeness auto
termination
  by (relation "measure (\<lambda>(s, current, end). nat (int (length s) - current))") auto

declare leading_scan.simps [simp del]

definition trimLeadingWhitespace :: "string \<Rightarrow> string" where
  "trimLeadingWhitespace s =
     (if length s > 0 then
        (let end = leading_scan s 0 (-1) in
         if end \<ge> 0 then replace_empty s 0 (end + 1) else s)
      else s)"

function trailing_scan :: "string \<Rightarrow> int \<Rightarrow> int \<Rightarrow> int" where
  "trailing_scan s current end =
     (if current \<ge> 0 \<and> s ! nat current = CHR '' ''
      then trailing_scan s (current - 1) current else end)"
  by pat_completeness auto
termination
  by (relation "measure (\<lambda>(s, current, end). nat (current + 1))") auto

declare trailing_scan.simps [simp del]

definition trimTrailingWhitespace :: "string \<Rightarrow> string" where
  "trimTrailingWhitespace s =
     (if length s > 0 then
        (let slen = int (length s); end = trailing_scan s (slen - 1) (-1) in
         if end \<ge> 0 then replace_empty s end (slen - 1) else s)
      else s)"

definition cleanWord :: "string \<Rightarrow> string" where
  "cleanWord s = toLowerString (trimTrailingWhitespace (trimLeadingWhitespace (trimEndOfLine s)))"

subsection \<open>Building the store\<close>

text \<open>
  \<open>set_insert\<close> is \<^verbatim>\<open>unordered_set::insert\<close>: the new set and the flag of the returned
  pair, which says whether the element was inserted. \<open>push_back_at k w\<close> is
  \<^verbatim>\<open>(**sizeHash)[k].push_back(w)\<close>: it appends to the bucket of the key, and creates the
  bucket when the key is new. \<open>at_key\<close> reads \<^verbatim>\<open>(*sizeHash)[k]\<close>, which is the empty
  vector for a key that is not in the table. \<open>hashStringFile\<close> returns its result
  together with the table and the set it leaves in its two output parameters.
\<close>

definition set_insert :: "string \<Rightarrow> FLStringSet \<Rightarrow> FLStringSet \<times> bool" where
  "set_insert x S = (insert x S, x \<notin> S)"

fun push_back_at :: "nat \<Rightarrow> string \<Rightarrow> FLLengthMap \<Rightarrow> FLLengthMap" where
  "push_back_at k w [] = [(k, [w])]"
| "push_back_at k w ((k', ws) # m) =
     (if k' = k then (k', ws @ [w]) # m else (k', ws) # push_back_at k w m)"

definition at_key :: "FLLengthMap \<Rightarrow> nat \<Rightarrow> string list" where
  "at_key m k = (case map_of m k of Some ws \<Rightarrow> ws | None \<Rightarrow> [])"

fun hashStringFile_loop ::
  "string list \<Rightarrow> FLLengthMap \<Rightarrow> FLStringSet \<Rightarrow> bool \<times> FLLengthMap \<times> FLStringSet" where
  "hashStringFile_loop [] sizeHash stringSet = (True, sizeHash, stringSet)"
| "hashStringFile_loop (l # ls) sizeHash stringSet =
     (let line = cleanWord l; lineLen = length line in
      if lineLen > 0 then
        (case set_insert line stringSet of
           (stringSet', inserted) \<Rightarrow>
             if inserted
             then hashStringFile_loop ls (push_back_at lineLen line sizeHash) stringSet'
             else (False, sizeHash, stringSet'))
      else hashStringFile_loop ls sizeHash stringSet)"

definition hashStringFile :: "string list \<Rightarrow> bool \<times> FLLengthMap \<times> FLStringSet" where
  "hashStringFile lines = hashStringFile_loop lines [] {}"

subsection \<open>The scan, longest words first\<close>

text \<open>
  \<^verbatim>\<open>sizeHashSortFunction\<close> compares with \<^verbatim>\<open>strcmp\<close>: the bytes up to the first NUL, as
  unsigned characters, lexicographically. \<open>std_sort\<close> is \<^verbatim>\<open>std::sort\<close> with this
  comparison. For words that \<^verbatim>\<open>strcmp\<close> tells apart the sorted order is unique
  (\<open>std_sort_unique\<close>), and \<open>std_sort\<close> is this order. For words that differ after a NUL
  only, \<^verbatim>\<open>std::sort\<close>, which is not stable, may leave any order; there \<open>std_sort\<close>
  keeps the order they had and need not be the order of a run, so what is proved about
  the order after the sort is proved for buckets without such words.

  \<open>extract_loop\<close> is the loop over the table in \<^verbatim>\<open>extractAndSortKeysFromSizeHash\<close>; the
  function returns the table, whose buckets it has sorted when \<open>kDoPreSort\<close> is set, and
  the sorted key vector. \<open>try_word\<close> is the body of the inner loop of
  \<^verbatim>\<open>findLongestWordsOfWords\<close>, \<open>word_loop\<close> the inner loop on \<open>wordListIndex\<close>,
  \<open>key_loop\<close> the outer loop on \<open>keyListIndex\<close>, and \<open>scan\<close> the whole function on
  its local state; \<open>findLongestWordsOfWords\<close> returns the count and the two words, as the
  source does by its result and its two reference parameters. \<open>main\<close> gives what the
  program prints last: the report, nothing after a failed insertion, or the exit after a
  file that does not open.
\<close>

definition c_str :: "string \<Rightarrow> string" where
  "c_str s = takeWhile (\<lambda>c. c \<noteq> CHR 0x00) s"

definition sizeHashSortFunction :: "string \<Rightarrow> string \<Rightarrow> bool" where
  "sizeHashSortFunction a b \<longleftrightarrow> c_str a < c_str b"

definition std_sort :: "string list \<Rightarrow> string list" where
  "std_sort ws = sort_key c_str ws"

fun extract_loop :: "bool \<Rightarrow> FLLengthMap \<Rightarrow> int list \<Rightarrow> FLLengthMap \<times> int list" where
  "extract_loop kDoPreSort [] keyVector = ([], keyVector)"
| "extract_loop kDoPreSort ((k, ws) # rest) keyVector =
     (case extract_loop kDoPreSort rest (keyVector @ [int k]) of
        (rest', keyVector') \<Rightarrow> ((k, if kDoPreSort then std_sort ws else ws) # rest', keyVector'))"

definition extractAndSortKeysFromSizeHash ::
  "bool \<Rightarrow> FLLengthMap \<Rightarrow> int list \<Rightarrow> FLLengthMap \<times> int list" where
  "extractAndSortKeysFromSizeHash kDoPreSort sizeHash keyVector =
     (case extract_loop kDoPreSort sizeHash keyVector of
        (sizeHash', keyVector') \<Rightarrow> (sizeHash', sort keyVector'))"

record scan_state =
  firstWord :: string
  secondWord :: string
  firstFound :: bool
  secondFound :: bool
  countFound :: int
  tried :: "string list"

definition try_word :: "FLStringSet \<Rightarrow> string \<Rightarrow> scan_state \<Rightarrow> scan_state" where
  "try_word stringSet word st =
     (let st1 = st\<lparr>tried := tried st @ [word]\<rparr> in
      if wordIsMadeOfOtherWords word stringSet then
        (let st2 = st1\<lparr>countFound := countFound st1 + 1\<rparr> in
         if \<not> secondFound st2 then
           (if \<not> firstFound st2 then st2\<lparr>firstWord := word, firstFound := True\<rparr>
            else st2\<lparr>secondWord := word, secondFound := True\<rparr>)
         else st2)
      else st1)"

function word_loop ::
  "FLStringSet \<Rightarrow> string list \<Rightarrow> int \<Rightarrow> int \<Rightarrow> scan_state \<Rightarrow> scan_state" where
  "word_loop stringSet wordList listLength wordListIndex st =
     (if wordListIndex < listLength
      then word_loop stringSet wordList listLength (wordListIndex + 1)
             (try_word stringSet (wordList ! nat wordListIndex) st)
      else st)"
  by pat_completeness auto
termination
  by (relation "measure (\<lambda>(S, ws, n, i, st). nat (n - i))") auto

declare word_loop.simps [simp del]

function key_loop ::
  "FLStringSet \<Rightarrow> FLLengthMap \<Rightarrow> int list \<Rightarrow> int \<Rightarrow> scan_state \<Rightarrow> scan_state" where
  "key_loop stringSet sizeHash keyList keyListIndex st =
     (if keyListIndex \<ge> 0 then
        (let wordList = at_key sizeHash (nat (keyList ! nat keyListIndex));
             listLength = int (length wordList)
         in key_loop stringSet sizeHash keyList (keyListIndex - 1)
              (word_loop stringSet wordList listLength 0 st))
      else st)"
  by pat_completeness auto
termination
  by (relation "measure (\<lambda>(S, m, ks, i, st). nat (i + 1))") auto

declare key_loop.simps [simp del]

definition scan :: "bool \<Rightarrow> FLStringSet \<Rightarrow> FLLengthMap \<Rightarrow> scan_state" where
  "scan kDoPreSort stringSet sizeHash =
     (let st = \<lparr>firstWord = [], secondWord = [], firstFound = False, secondFound = False,
                countFound = 0, tried = []\<rparr>
      in case extractAndSortKeysFromSizeHash kDoPreSort sizeHash [] of
           (sizeHash', keyList) \<Rightarrow>
             key_loop stringSet sizeHash' keyList (int (length keyList) - 1) st)"

definition findLongestWordsOfWords ::
  "bool \<Rightarrow> FLStringSet \<Rightarrow> FLLengthMap \<Rightarrow> int \<times> string \<times> string" where
  "findLongestWordsOfWords kDoPreSort stringSet sizeHash =
     (let st = scan kDoPreSort stringSet sizeHash
      in (countFound st, firstWord st, secondWord st))"

datatype outcome = OpenFailed | NoReport | Report string string int

definition main :: "bool \<Rightarrow> string list option \<Rightarrow> outcome" where
  "main kDoPreSort file =
     (case file of
        None \<Rightarrow> OpenFailed
      | Some lines \<Rightarrow>
          (case hashStringFile lines of
             (ok, sizeHash, stringSet) \<Rightarrow>
               if ok then
                 (case findLongestWordsOfWords kDoPreSort stringSet sizeHash of
                    (count', firstWord', secondWord') \<Rightarrow> Report firstWord' secondWord' count')
               else NoReport))"

text \<open>
  Two notions for the proofs: the state of the scan after the decomposable words \<open>found\<close>
  among the tried words \<open>tr\<close>, and the list of all words in the order of the scan.
\<close>

definition state_of :: "string list \<Rightarrow> string list \<Rightarrow> scan_state" where
  "state_of found tr =
     \<lparr>firstWord = (case found of [] \<Rightarrow> [] | a # _ \<Rightarrow> a),
      secondWord = (case found of a # b # _ \<Rightarrow> b | _ \<Rightarrow> []),
      firstFound = (found \<noteq> []),
      secondFound = (2 \<le> length found),
      countFound = int (length found),
      tried = tr\<rparr>"

definition visited :: "bool \<Rightarrow> FLLengthMap \<Rightarrow> string list" where
  "visited p m =
     concat (map (\<lambda>k. if p then std_sort (at_key m (nat k)) else at_key m (nat k))
       (rev (sort (map (\<lambda>(k, ws). int k) m))))"

text \<open>
  The invariant of the store: the keys of the length table are distinct, every bucket
  lists words of the set without repetition, each of the length that is the bucket's key,
  and every word of the set is in the bucket of its length.
\<close>

definition store_inv :: "FLStringSet \<Rightarrow> FLLengthMap \<Rightarrow> bool" where
  "store_inv S m \<longleftrightarrow>
     distinct (map fst m) \<and>
     (\<forall>(k, ws) \<in> set m. distinct ws \<and> (\<forall>w \<in> set ws. w \<in> S \<and> length w = k)) \<and>
     (\<forall>w \<in> S. w \<in> set (at_key m (length w)))"

text \<open>The words that reach the store: the cleaned lines that are not empty, in file order.\<close>

definition cleaned_words :: "string list \<Rightarrow> string list" where
  "cleaned_words lines = filter (\<lambda>line. length line > 0) (map cleanWord lines)"

text \<open>
  The range of \<^verbatim>\<open>int\<close>. The source keeps lengths, keys and counts in variables of type
  \<^verbatim>\<open>int\<close> (\<^verbatim>\<open>sublen\<close>, the elements of \<^verbatim>\<open>keyVector\<close>, \<^verbatim>\<open>listLength\<close>,
  \<^verbatim>\<open>countFound\<close>), which hold the values below \<open>2^31\<close>; from there on the conversion
  from \<^verbatim>\<open>size_t\<close> wraps. The model has these variables in the unbounded \<open>int\<close>, so it
  is the source for words shorter than \<open>2^31\<close> and for tables in \<open>int_range\<close>: every key
  and every word length below \<open>2^31\<close>, and fewer than \<open>2^31\<close> words. The theorems that
  would not hold of the source outside this range state it as a hypothesis.
\<close>

definition int_range :: "FLLengthMap \<Rightarrow> bool" where
  "int_range m \<longleftrightarrow>
     (\<forall>(k, ws) \<in> set m. k < 2 ^ 31 \<and> (\<forall>w \<in> set ws. length w < 2 ^ 31)) \<and>
     length (concat (map snd m)) < 2 ^ 31"

subsection \<open>What the loop computes\<close>

lemma shrink_loop_iff:
  "sublen + remlen = int (length word) \<Longrightarrow>
   shrink_loop word S sublen remlen \<longleftrightarrow>
     (\<exists>k::nat. 0 < k \<and> int k \<le> sublen \<and> take k word \<in> S \<and>
        (drop k word \<in> S \<or> wordIsMadeOfOtherWords (drop k word) S))"
proof (induction "nat sublen" arbitrary: sublen remlen)
  case 0
  then show ?case by (subst shrink_loop.simps) auto
next
  case (Suc n)
  let ?P = "\<lambda>k. take k word \<in> S \<and>
        (drop k word \<in> S \<or> wordIsMadeOfOtherWords (drop k word) S)"
  from Suc have pos: "0 < sublen" and n: "n = nat (sublen - 1)"
    and inv: "(sublen - 1) + (remlen + 1) = int (length word)" by auto
  have part: "substr word 0 sublen = take (nat sublen) word"
    by (simp add: substr_def)
  have rem: "substr word sublen remlen = drop (nat sublen) word"
    using Suc.prems pos by (simp add: substr_def)
  have IH: "shrink_loop word S (sublen - 1) (remlen + 1) \<longleftrightarrow>
      (\<exists>k::nat. 0 < k \<and> int k \<le> sublen - 1 \<and> ?P k)"
    by (rule Suc.hyps(1)[OF n inv])
  have unfold: "shrink_loop word S sublen remlen \<longleftrightarrow>
      ?P (nat sublen) \<or> shrink_loop word S (sublen - 1) (remlen + 1)"
    by (subst shrink_loop.simps) (simp add: pos part rem Let_def)
  have "(\<exists>k::nat. 0 < k \<and> int k \<le> sublen \<and> ?P k) \<longleftrightarrow>
      ?P (nat sublen) \<or> (\<exists>k::nat. 0 < k \<and> int k \<le> sublen - 1 \<and> ?P k)"
    (is "?L \<longleftrightarrow> ?R")
  proof
    assume ?L
    then obtain k where k: "0 < k" "int k \<le> sublen" "?P k" by blast
    show ?R
    proof (cases "k = nat sublen")
      case True
      with k show ?thesis by simp
    next
      case False
      with k have "int k \<le> sublen - 1" by linarith
      with k show ?thesis by blast
    qed
  next
    assume ?R
    then show ?L
    proof
      assume "?P (nat sublen)"
      moreover have "0 < nat sublen" "int (nat sublen) \<le> sublen" using pos by simp_all
      ultimately show ?L by blast
    next
      assume "\<exists>k::nat. 0 < k \<and> int k \<le> sublen - 1 \<and> ?P k"
      then obtain k where k: "0 < k" "int k \<le> sublen - 1" "?P k" by blast
      then have "int k \<le> sublen" by simp
      with k show ?L by blast
    qed
  qed
  with unfold IH show ?case by simp
qed

lemma wordIsMadeOfOtherWords_iff:
  "wordIsMadeOfOtherWords word S \<longleftrightarrow>
     (\<exists>k::nat. 0 < k \<and> k < length word \<and> take k word \<in> S \<and>
        (drop k word \<in> S \<or> wordIsMadeOfOtherWords (drop k word) S))"
proof -
  have "wordIsMadeOfOtherWords word S \<longleftrightarrow>
     (\<exists>k::nat. 0 < k \<and> int k \<le> int (length word) - 1 \<and> take k word \<in> S \<and>
        (drop k word \<in> S \<or> wordIsMadeOfOtherWords (drop k word) S))"
    unfolding wordIsMadeOfOtherWords.simps [of word S]
    by (rule shrink_loop_iff) simp
  moreover have "int k \<le> int (length word) - 1 \<longleftrightarrow> k < length word" for k :: nat
    by linarith
  ultimately show ?thesis
    by presburger
qed

lemma concat_pieces_decomposable:
  "\<forall>p \<in> set ws. p \<in> S \<and> p \<noteq> [] \<Longrightarrow> 2 \<le> length ws \<Longrightarrow>
   wordIsMadeOfOtherWords (concat ws) S"
proof (induction ws)
  case Nil
  then show ?case by simp
next
  case (Cons p rest)
  then have p: "p \<in> S" "p \<noteq> []" and rest: "rest \<noteq> []"
    and all: "\<forall>q \<in> set rest. q \<in> S \<and> q \<noteq> []" by auto
  from rest all have ne: "concat rest \<noteq> []" by (cases rest) auto
  have tail: "concat rest \<in> S \<or> wordIsMadeOfOtherWords (concat rest) S"
  proof (cases "2 \<le> length rest")
    case True
    with Cons.IH all show ?thesis by simp
  next
    case False
    with rest obtain q where "rest = [q]" by (cases rest; cases "tl rest") auto
    with all show ?thesis by simp
  qed
  let ?w = "concat (p # rest)"
  have "0 < length p" "length p < length ?w" "take (length p) ?w \<in> S"
    using p ne by simp_all
  moreover have "drop (length p) ?w \<in> S \<or> wordIsMadeOfOtherWords (drop (length p) ?w) S"
    using tail by simp
  ultimately have "\<exists>k::nat. 0 < k \<and> k < length ?w \<and> take k ?w \<in> S \<and>
        (drop k ?w \<in> S \<or> wordIsMadeOfOtherWords (drop k ?w) S)"
    by blast
  then show ?case by (rule iffD2 [OF wordIsMadeOfOtherWords_iff])
qed

lemma spec_decomposable_nonempty_pieces:
  assumes "spec_decomposable w S"
  shows "\<exists>ws. 2 \<le> length ws \<and> concat ws = w \<and> (\<forall>p \<in> set ws. p \<in> S \<and> p \<noteq> [])"
proof -
  from assms obtain ws where ws: "2 \<le> length ws" "concat ws = w"
    "\<forall>p \<in> set ws. p \<in> S \<and> length p < length w"
    by (auto simp: spec_decomposable_def)
  let ?ws = "filter (\<lambda>p. p \<noteq> []) ws"
  have c: "concat ?ws = w"
    using ws(2) by (induction ws arbitrary: w) auto
  have "2 \<le> length ?ws"
  proof (rule ccontr)
    assume "\<not> 2 \<le> length ?ws"
    then consider "?ws = []" | q where "?ws = [q]"
      by (cases ?ws rule: list.exhaust; cases "tl ?ws") auto
    then show False
    proof cases
      case 1
      with c have "w = []" by simp
      moreover from ws(1) obtain p where "p \<in> set ws" by (cases ws) auto
      ultimately show False using ws(3) by auto
    next
      case 2
      with c have "q = w" by simp
      moreover have "q \<in> set ?ws" using 2 by simp
      then have "q \<in> set ws" by simp
      ultimately show False using ws(3) by auto
    qed
  qed
  moreover have "\<forall>p \<in> set ?ws. p \<in> S \<and> p \<noteq> []" using ws(3) by simp
  ultimately show ?thesis using c by blast
qed

lemma decomposable_imp_spec:
  "wordIsMadeOfOtherWords w S \<Longrightarrow> spec_decomposable w S"
proof (induction "length w" arbitrary: w rule: less_induct)
  case less
  from less.prems obtain k where k: "0 < k" "k < length w" "take k w \<in> S"
    "drop k w \<in> S \<or> wordIsMadeOfOtherWords (drop k w) S"
    using iffD1 [OF wordIsMadeOfOtherWords_iff] by blast
  from k(4) show ?case
  proof
    assume "drop k w \<in> S"
    with k have "2 \<le> length [take k w, drop k w]" "concat [take k w, drop k w] = w"
      "\<forall>p \<in> set [take k w, drop k w]. p \<in> S \<and> length p < length w"
      by auto
    then show ?thesis unfolding spec_decomposable_def by blast
  next
    assume "wordIsMadeOfOtherWords (drop k w) S"
    moreover have "length (drop k w) < length w" using k by simp
    ultimately have "spec_decomposable (drop k w) S" by (rule less.hyps[rotated])
    then obtain ws where ws: "2 \<le> length ws" "concat ws = drop k w"
      "\<forall>p \<in> set ws. p \<in> S \<and> length p < length (drop k w)"
      by (auto simp: spec_decomposable_def)
    have "2 \<le> length (take k w # ws)" "concat (take k w # ws) = w"
      "\<forall>p \<in> set (take k w # ws). p \<in> S \<and> length p < length w"
      using ws k by auto
    then show ?thesis unfolding spec_decomposable_def by blast
  qed
qed

lemma engine_depends_on_shorter_members:
  "(\<forall>x. x \<noteq> [] \<and> length x < length w \<longrightarrow> (x \<in> S \<longleftrightarrow> x \<in> S')) \<Longrightarrow>
   wordIsMadeOfOtherWords w S = wordIsMadeOfOtherWords w S'"
proof (induction "length w" arbitrary: w rule: less_induct)
  case less
  have step: "(take k w \<in> S \<and> (drop k w \<in> S \<or> wordIsMadeOfOtherWords (drop k w) S)) =
      (take k w \<in> S' \<and> (drop k w \<in> S' \<or> wordIsMadeOfOtherWords (drop k w) S'))"
    if k: "0 < k" "k < length w" for k
  proof -
    have "take k w \<noteq> []" "length (take k w) < length w"
      "drop k w \<noteq> []" "length (drop k w) < length w"
      using k by auto
    then have "take k w \<in> S \<longleftrightarrow> take k w \<in> S'" "drop k w \<in> S \<longleftrightarrow> drop k w \<in> S'"
      using less.prems by blast+
    moreover have "wordIsMadeOfOtherWords (drop k w) S = wordIsMadeOfOtherWords (drop k w) S'"
    proof (rule less.hyps)
      show "length (drop k w) < length w" using k by simp
      show "\<forall>x. x \<noteq> [] \<and> length x < length (drop k w) \<longrightarrow> (x \<in> S \<longleftrightarrow> x \<in> S')"
        using less.prems by auto
    qed
    ultimately show ?thesis by simp
  qed
  have "(\<exists>k::nat. 0 < k \<and> k < length w \<and> take k w \<in> S \<and>
        (drop k w \<in> S \<or> wordIsMadeOfOtherWords (drop k w) S)) =
     (\<exists>k::nat. 0 < k \<and> k < length w \<and> take k w \<in> S' \<and>
        (drop k w \<in> S' \<or> wordIsMadeOfOtherWords (drop k w) S'))"
    using step by blast
  then show ?case
    using wordIsMadeOfOtherWords_iff [of w S] wordIsMadeOfOtherWords_iff [of w S'] by simp
qed

lemma not_decomposable_empty_store: "\<not> wordIsMadeOfOtherWords w {}"
  using wordIsMadeOfOtherWords_iff [of w "{}"] by simp

lemma shrink_loop_trace_stop:
  "\<not> 0 < sublen \<Longrightarrow> shrink_loop_trace word S sublen remlen = (False, [], [])"
  by (subst shrink_loop_trace.simps) simp

lemma shrink_loop_trace_step:
  "0 < sublen \<Longrightarrow> shrink_loop_trace word S sublen remlen =
    (let partWord = substr word 0 sublen;
         remainingString = substr word sublen remlen;
         t = shrink_loop_trace word S (sublen - 1) (remlen + 1)
     in if partWord \<in> S then
          if remainingString \<in> S then (True, [sublen], [])
          else if wordIsMadeOfOtherWords remainingString S then (True, [sublen], [remainingString])
          else (fst t, sublen # fst (snd t), remainingString # snd (snd t))
        else (fst t, sublen # fst (snd t), snd (snd t)))"
  by (subst shrink_loop_trace.simps) (simp add: Let_def split: prod.splits)

lemma shrink_loop_trace_result:
  "fst (shrink_loop_trace word S sublen remlen) = shrink_loop word S sublen remlen"
proof (induction "nat sublen" arbitrary: sublen remlen)
  case 0
  then have "\<not> 0 < sublen" by simp
  then show ?case
    by (subst shrink_loop.simps) (simp add: shrink_loop_trace_stop)
next
  case (Suc n)
  then have pos: "0 < sublen" and n: "n = nat (sublen - 1)" by auto
  show ?case
    by (subst shrink_loop.simps)
      (simp add: shrink_loop_trace_step [OF pos] Suc.hyps(1) [OF n] pos Let_def)
qed

lemma shrink_loop_trace_tests:
  "set (fst (snd (shrink_loop_trace word S sublen remlen))) \<subseteq> {1..sublen} \<and>
   length (fst (snd (shrink_loop_trace word S sublen remlen))) \<le> nat sublen"
proof (induction "nat sublen" arbitrary: sublen remlen)
  case 0
  then have "\<not> 0 < sublen" by simp
  then show ?case by (simp add: shrink_loop_trace_stop)
next
  case (Suc n)
  then have pos: "0 < sublen" and n: "n = nat (sublen - 1)" by auto
  let ?t = "shrink_loop_trace word S (sublen - 1) (remlen + 1)"
  from Suc.hyps(1) [OF n, of "remlen + 1"]
  have IH: "set (fst (snd ?t)) \<subseteq> {1..sublen - 1}" "length (fst (snd ?t)) \<le> nat (sublen - 1)"
    by simp_all
  from IH(1) have sub: "set (fst (snd ?t)) \<subseteq> {1..sublen}" by auto
  from IH(2) pos have len: "Suc (length (fst (snd ?t))) \<le> nat sublen" by linarith
  show ?case
    using pos sub len by (simp add: shrink_loop_trace_step [OF pos] Let_def)
qed

lemma shrink_loop_trace_calls:
  "sublen + remlen = int (length word) \<Longrightarrow> 0 < remlen \<Longrightarrow>
   s \<in> set (snd (snd (shrink_loop_trace word S sublen remlen))) \<Longrightarrow>
   (\<exists>k::nat. 0 < k \<and> k < length word \<and> s = drop k word)"
proof (induction "nat sublen" arbitrary: sublen remlen)
  case 0
  then have "\<not> 0 < sublen" by simp
  with 0 show ?case by (simp add: shrink_loop_trace_stop)
next
  case (Suc n)
  then have pos: "0 < sublen" and n: "n = nat (sublen - 1)"
    and inv: "sublen - 1 + (remlen + 1) = int (length word)" "0 < remlen + 1" by auto
  let ?t = "shrink_loop_trace word S (sublen - 1) (remlen + 1)"
  have rem: "substr word sublen remlen = drop (nat sublen) word"
    using Suc.prems pos by (simp add: substr_def)
  have k: "0 < nat sublen" "nat sublen < length word"
    using Suc.prems pos by auto
  from Suc.prems(3) have "s = drop (nat sublen) word \<or> s \<in> set (snd (snd ?t))"
    by (simp add: shrink_loop_trace_step [OF pos] Let_def rem split: if_splits)
  then show ?case
  proof
    assume "s = drop (nat sublen) word"
    with k show ?thesis by blast
  next
    assume "s \<in> set (snd (snd ?t))"
    then show ?thesis by (rule Suc.hyps(1) [OF n inv])
  qed
qed

lemma search_in_order_eq:
  assumes "\<forall>L. {k. 0 < k \<and> k < L} \<subseteq> set (ord L)"
  shows "search_in_order ord w S = wordIsMadeOfOtherWords w S"
proof (induction "length w" arbitrary: w rule: less_induct)
  case less
  let ?P = "\<lambda>f k. 0 < k \<and> k < length w \<and> take k w \<in> S \<and> (drop k w \<in> S \<or> f (drop k w))"
  have "search_in_order ord w S \<longleftrightarrow>
      (\<exists>k \<in> set (ord (length w)). ?P (\<lambda>v. search_in_order ord v S) k)"
    by (subst search_in_order.simps) (auto simp: list_ex_iff)
  also have "\<dots> \<longleftrightarrow> (\<exists>k. ?P (\<lambda>v. search_in_order ord v S) k)"
    using assms by blast
  also have "\<dots> \<longleftrightarrow> (\<exists>k. ?P (\<lambda>v. wordIsMadeOfOtherWords v S) k)"
  proof -
    have "search_in_order ord (drop k w) S = wordIsMadeOfOtherWords (drop k w) S"
      if "0 < k" "k < length w" for k
      using that by (intro less.hyps) simp
    then show ?thesis by blast
  qed
  also have "\<dots> \<longleftrightarrow> wordIsMadeOfOtherWords w S"
    by (rule wordIsMadeOfOtherWords_iff [symmetric])
  finally show ?case .
qed

subsection \<open>The loops of the scan as folds\<close>

lemma try_word_state_of:
  "try_word S w (state_of ds tr) =
     state_of (ds @ (if wordIsMadeOfOtherWords w S then [w] else [])) (tr @ [w])"
proof (cases ds)
  case Nil
  then show ?thesis by (simp add: try_word_def state_of_def)
next
  case (Cons a ds')
  then show ?thesis
    by (cases ds') (simp_all add: try_word_def state_of_def)
qed

lemma foldl_try_word_state_of:
  "foldl (\<lambda>st w. try_word S w st) (state_of ds tr) ws =
     state_of (ds @ filter (\<lambda>w. wordIsMadeOfOtherWords w S) ws) (tr @ ws)"
proof (induction ws arbitrary: ds tr)
  case Nil
  then show ?case by simp
next
  case (Cons w ws)
  show ?case
    by (simp add: try_word_state_of Cons.IH)
qed

lemma word_loop_drop:
  "i \<le> length ws \<Longrightarrow>
   word_loop S ws (int (length ws)) (int i) st = foldl (\<lambda>st w. try_word S w st) st (drop i ws)"
proof (induction "length ws - i" arbitrary: i st)
  case 0
  then show ?case by (subst word_loop.simps) simp
next
  case (Suc n)
  then have lt: "i < length ws" and n: "n = length ws - Suc i" and le: "Suc i \<le> length ws"
    by auto
  have next_index: "int i + 1 = int (Suc i)" by simp
  have "word_loop S ws (int (length ws)) (int i) st =
      word_loop S ws (int (length ws)) (int (Suc i)) (try_word S (ws ! i) st)"
    using lt by (subst word_loop.simps) (simp only: next_index, simp)
  also have "\<dots> = foldl (\<lambda>st w. try_word S w st) (try_word S (ws ! i) st) (drop (Suc i) ws)"
    by (rule Suc.hyps(1) [OF n le])
  also have "\<dots> = foldl (\<lambda>st w. try_word S w st) st (drop i ws)"
    using lt by (simp add: Cons_nth_drop_Suc [symmetric])
  finally show ?case .
qed

lemma word_loop_foldl:
  "word_loop S ws (int (length ws)) 0 st = foldl (\<lambda>st w. try_word S w st) st ws"
  using word_loop_drop [of 0 ws S st] by simp

lemma key_loop_take:
  "i \<le> length ks \<Longrightarrow>
   key_loop S m ks (int i - 1) st =
     foldl (\<lambda>st w. try_word S w st) st
       (concat (map (\<lambda>k. at_key m (nat k)) (rev (take i ks))))"
proof (induction i arbitrary: st)
  case 0
  then show ?case by (subst key_loop.simps) simp
next
  case (Suc i)
  then have lt: "i < length ks" and le: "i \<le> length ks" by auto
  have idx: "int (Suc i) - 1 = int i" by simp
  have "key_loop S m ks (int (Suc i) - 1) st =
      key_loop S m ks (int i - 1)
        (foldl (\<lambda>st w. try_word S w st) st (at_key m (nat (ks ! i))))"
    unfolding idx
    by (subst key_loop.simps) (simp add: Let_def word_loop_foldl)
  also have "\<dots> = foldl (\<lambda>st w. try_word S w st)
      (foldl (\<lambda>st w. try_word S w st) st (at_key m (nat (ks ! i))))
      (concat (map (\<lambda>k. at_key m (nat k)) (rev (take i ks))))"
    by (rule Suc.IH [OF le])
  also have "\<dots> = foldl (\<lambda>st w. try_word S w st) st
      (concat (map (\<lambda>k. at_key m (nat k)) (rev (take (Suc i) ks))))"
    using lt by (simp add: take_Suc_conv_app_nth)
  finally show ?case .
qed

lemma key_loop_foldl:
  "key_loop S m ks (int (length ks) - 1) st =
     foldl (\<lambda>st w. try_word S w st) st (concat (map (\<lambda>k. at_key m (nat k)) (rev ks)))"
  using key_loop_take [of "length ks" ks S m st] by simp

lemma extract_loop_eq:
  "extract_loop p m kv =
     (map (\<lambda>(k, ws). (k, if p then std_sort ws else ws)) m, kv @ map (\<lambda>(k, ws). int k) m)"
  by (induction m arbitrary: kv) auto

lemma extractAndSortKeysFromSizeHash_eq:
  "extractAndSortKeysFromSizeHash p m [] =
     (map (\<lambda>(k, ws). (k, if p then std_sort ws else ws)) m, sort (map (\<lambda>(k, ws). int k) m))"
  by (simp add: extractAndSortKeysFromSizeHash_def extract_loop_eq)

lemma at_key_presorted:
  "at_key (map (\<lambda>(k, ws). (k, if p then std_sort ws else ws)) m) k =
     (if p then std_sort (at_key m k) else at_key m k)"
proof -
  have "map_of (map (\<lambda>(k, ws). (k, if p then std_sort ws else ws)) m) k =
      map_option (\<lambda>ws. if p then std_sort ws else ws) (map_of m k)"
    by (induction m) auto
  then show ?thesis
    by (simp add: at_key_def std_sort_def split: option.splits)
qed

lemma scan_eq:
  "scan p S m = state_of (filter (\<lambda>w. wordIsMadeOfOtherWords w S) (visited p m)) (visited p m)"
proof -
  have init: "\<lparr>firstWord = [], secondWord = [], firstFound = False, secondFound = False,
      countFound = 0, tried = []\<rparr> = state_of [] []"
    by (simp add: state_of_def)
  show ?thesis
    unfolding scan_def Let_def init extractAndSortKeysFromSizeHash_eq prod.case
      key_loop_foldl foldl_try_word_state_of
    by (simp add: at_key_presorted visited_def)
qed

subsection \<open>Which words the scan visits\<close>


lemma at_key_distinct:
  "distinct (map fst m) \<Longrightarrow> (k, ws) \<in> set m \<Longrightarrow> at_key m k = ws"
  by (simp add: at_key_def)

lemma at_key_in_buckets:
  "w \<in> set (at_key m k) \<Longrightarrow> w \<in> set (concat (map snd m))"
proof -
  assume w: "w \<in> set (at_key m k)"
  then obtain ws where "map_of m k = Some ws" "w \<in> set ws"
    by (cases "map_of m k") (auto simp: at_key_def)
  then have "(k, ws) \<in> set m" "w \<in> set ws"
    by (auto dest: map_of_SomeD)
  then show ?thesis by force
qed

lemma set_visited: "set (visited p m) \<subseteq> set (concat (map snd m))"
proof
  fix w
  assume "w \<in> set (visited p m)"
  then obtain k where "w \<in> set (at_key m (nat k))"
    by (auto simp: visited_def std_sort_def split: if_splits)
  then show "w \<in> set (concat (map snd m))" by (rule at_key_in_buckets)
qed

lemma mset_visited:
  assumes "distinct (map fst m)"
  shows "mset (visited p m) = mset (concat (map snd m))"
proof -
  let ?g = "\<lambda>k. mset (if p then std_sort (at_key m (nat k)) else at_key m (nat k))"
  let ?ks = "rev (sort (map (\<lambda>(k, ws). int k) m))"
  have "mset (visited p m) = sum_list (map ?g ?ks)"
    by (simp add: visited_def mset_concat comp_def)
  also have "\<dots> = sum_mset (image_mset ?g (mset ?ks))"
    by (simp only: sum_mset_sum_list [symmetric] mset_map)
  also have "mset ?ks = mset (map (\<lambda>(k, ws). int k) m)"
    by simp
  also have "sum_mset (image_mset ?g (mset (map (\<lambda>(k, ws). int k) m))) =
      sum_list (map ?g (map (\<lambda>(k, ws). int k) m))"
    by (simp only: sum_mset_sum_list [symmetric] mset_map)
  also have "\<dots> = sum_list (map (\<lambda>(k, ws). mset ws) m)"
  proof -
    have "?g (int k) = mset ws" if "(k, ws) \<in> set m" for k ws
      using at_key_distinct [OF assms that] by (simp add: std_sort_def)
    then have "\<forall>x \<in> set m. (?g \<circ> (\<lambda>(k, ws). int k)) x = (\<lambda>(k, ws). mset ws) x"
      by auto
    then have "map (?g \<circ> (\<lambda>(k, ws). int k)) m = map (\<lambda>(k, ws). mset ws) m"
      by (intro map_cong [OF refl]) blast
    then show ?thesis by (simp only: map_map)
  qed
  also have "\<dots> = mset (concat (map snd m))"
    by (simp add: mset_concat comp_def case_prod_unfold)
  finally show ?thesis .
qed

lemma countFound_scan:
  "countFound (scan p S m) =
     int (length (filter (\<lambda>w. wordIsMadeOfOtherWords w S) (visited p m)))"
  by (simp add: scan_eq state_of_def)

lemma countFound_scan_mset:
  assumes "distinct (map fst m)"
  shows "countFound (scan p S m) =
     int (size {#w \<in># mset (concat (map snd m)). wordIsMadeOfOtherWords w S#})"
proof -
  have "length (filter (\<lambda>w. wordIsMadeOfOtherWords w S) (visited p m)) =
      size {#w \<in># mset (visited p m). wordIsMadeOfOtherWords w S#}"
    by (simp only: mset_filter [symmetric] size_mset)
  then show ?thesis
    by (simp add: countFound_scan mset_visited [OF assms])
qed


lemma std_sort_sorted:
  "sorted_wrt (\<lambda>a b. \<not> sizeHashSortFunction b a) (std_sort ws)"
proof -
  have "sorted (map c_str (sort_key c_str ws))"
    by (rule sorted_sort_key)
  then have "sorted_wrt (\<lambda>a b. c_str a \<le> c_str b) (sort_key c_str ws)"
    by (simp add: sorted_wrt_map)
  then show ?thesis
    unfolding std_sort_def sizeHashSortFunction_def
    by (rule sorted_wrt_mono_rel [rotated]) auto
qed

lemma mset_std_sort: "mset (std_sort ws) = mset ws"
  by (simp add: std_sort_def)


subsection \<open>The store that hashStringFile builds\<close>

lemma fst_push_back_at:
  "set (map fst (push_back_at k w m)) = insert k (set (map fst m))"
proof (induction m)
  case Nil
  then show ?case by simp
next
  case (Cons e m)
  obtain k' ws where e: "e = (k', ws)" by (cases e)
  show ?case
    using Cons.IH unfolding e by (cases "k' = k") auto
qed

lemma distinct_push_back_at:
  "distinct (map fst m) \<Longrightarrow> distinct (map fst (push_back_at k w m))"
proof (induction m)
  case Nil
  then show ?case by simp
next
  case (Cons e m)
  obtain k' ws where e: "e = (k', ws)" by (cases e)
  from Cons.prems have k': "k' \<notin> set (map fst m)" and d: "distinct (map fst m)"
    unfolding e by simp_all
  show ?case
  proof (cases "k' = k")
    case True
    with k' d show ?thesis unfolding e by simp
  next
    case False
    with k' have "k' \<notin> set (map fst (push_back_at k w m))"
      unfolding fst_push_back_at by simp
    with False Cons.IH [OF d] show ?thesis unfolding e by simp
  qed
qed

lemma map_of_push_back_at:
  "map_of (push_back_at k w m) k' =
     (if k' = k then Some (at_key m k @ [w]) else map_of m k')"
  by (induction m) (auto simp: at_key_def)

lemma at_key_push_back_at:
  "at_key (push_back_at k w m) k' = (if k' = k then at_key m k @ [w] else at_key m k')"
  by (simp add: at_key_def map_of_push_back_at)

lemma store_inv_map_of:
  "store_inv S m \<longleftrightarrow>
     distinct (map fst m) \<and>
     (\<forall>k ws. map_of m k = Some ws \<longrightarrow> distinct ws \<and> (\<forall>w \<in> set ws. w \<in> S \<and> length w = k)) \<and>
     (\<forall>w \<in> S. w \<in> set (at_key m (length w)))"
proof (cases "distinct (map fst m)")
  case True
  then have "(\<forall>(k, ws) \<in> set m. P k ws) \<longleftrightarrow> (\<forall>k ws. map_of m k = Some ws \<longrightarrow> P k ws)" for P
    by auto
  then show ?thesis
    unfolding store_inv_def by simp
next
  case False
  then show ?thesis by (simp add: store_inv_def)
qed

lemma store_inv_empty: "store_inv {} []"
  by (simp add: store_inv_def)

lemma store_inv_at_key:
  assumes "store_inv S m"
  shows "distinct (at_key m k)" and "set (at_key m k) \<subseteq> S"
    and "\<forall>w \<in> set (at_key m k). length w = k"
  using assms unfolding store_inv_map_of at_key_def
  by (auto split: option.splits)

lemma store_inv_push_back_at:
  assumes inv: "store_inv S m" and new: "w \<notin> S"
  shows "store_inv (insert w S) (push_back_at (length w) w m)"
proof -
  let ?k = "length w"
  let ?m = "push_back_at ?k w m"
  from inv have d: "distinct (map fst m)"
    and b: "\<And>k ws. map_of m k = Some ws \<Longrightarrow>
        distinct ws \<and> (\<forall>x \<in> set ws. x \<in> S \<and> length x = k)"
    and c: "\<And>x. x \<in> S \<Longrightarrow> x \<in> set (at_key m (length x))"
    unfolding store_inv_map_of by blast+
  have 1: "distinct (map fst ?m)"
    using d by (rule distinct_push_back_at)
  have 2: "distinct ws \<and> (\<forall>x \<in> set ws. x \<in> insert w S \<and> length x = k)"
    if "map_of ?m k = Some ws" for k ws
  proof (cases "k = ?k")
    case True
    with that have ws: "ws = at_key m ?k @ [w]"
      by (simp add: map_of_push_back_at)
    have "w \<notin> set (at_key m ?k)"
      using store_inv_at_key(2) [OF inv] new by blast
    then show ?thesis
      using store_inv_at_key [OF inv, of ?k] True unfolding ws by auto
  next
    case False
    with that have "map_of m k = Some ws"
      by (simp add: map_of_push_back_at)
    from b [OF this] show ?thesis by blast
  qed
  have 3: "x \<in> set (at_key ?m (length x))" if "x \<in> insert w S" for x
  proof (cases "x = w")
    case True
    then show ?thesis by (simp add: at_key_push_back_at)
  next
    case False
    with that have "x \<in> S" by simp
    from c [OF this] show ?thesis
      by (cases "length x = length w") (simp_all add: at_key_push_back_at)
  qed
  show ?thesis
    unfolding store_inv_map_of using 1 2 3 by blast
qed

lemma hashStringFile_loop_inv:
  "store_inv S m \<Longrightarrow> hashStringFile_loop ls m S = (ok, m', S') \<Longrightarrow> store_inv S' m'"
proof (induction ls arbitrary: m S)
  case Nil
  then show ?case by simp
next
  case (Cons l ls)
  let ?line = "cleanWord l"
  show ?case
  proof (cases "length ?line > 0")
    case False
    with Cons.prems have "hashStringFile_loop ls m S = (ok, m', S')"
      by (simp add: Let_def)
    from Cons.IH [OF Cons.prems(1) this] show ?thesis .
  next
    case True
    show ?thesis
    proof (cases "?line \<in> S")
      case dup: True
      with True Cons.prems(2) have "m' = m" "S' = S"
        by (auto simp: Let_def set_insert_def insert_absorb)
      with Cons.prems(1) show ?thesis by simp
    next
      case new: False
      with True Cons.prems(2)
      have "hashStringFile_loop ls (push_back_at (length ?line) ?line m) (insert ?line S)
          = (ok, m', S')"
        by (simp add: Let_def set_insert_def)
      moreover have "store_inv (insert ?line S) (push_back_at (length ?line) ?line m)"
        using Cons.prems(1) new by (rule store_inv_push_back_at)
      ultimately show ?thesis by (rule Cons.IH [rotated])
    qed
  qed
qed

lemma hashStringFile_loop_ok:
  "hashStringFile_loop ls m S = (ok, m', S') \<Longrightarrow>
   (ok \<longleftrightarrow> distinct (cleaned_words ls) \<and> set (cleaned_words ls) \<inter> S = {}) \<and>
   (ok \<longrightarrow> S' = S \<union> set (cleaned_words ls))"
proof (induction ls arbitrary: m S)
  case Nil
  then show ?case by (auto simp: cleaned_words_def)
next
  case (Cons l ls)
  let ?line = "cleanWord l"
  show ?case
  proof (cases "length ?line > 0")
    case False
    with Cons.prems have "hashStringFile_loop ls m S = (ok, m', S')"
      by (simp add: Let_def)
    from Cons.IH [OF this] False show ?thesis
      by (simp add: cleaned_words_def)
  next
    case True
    then have cw: "cleaned_words (l # ls) = ?line # cleaned_words ls"
      by (simp add: cleaned_words_def)
    show ?thesis
    proof (cases "?line \<in> S")
      case dup: True
      with True Cons.prems have "\<not> ok"
        by (auto simp: Let_def set_insert_def)
      with dup show ?thesis unfolding cw by auto
    next
      case new: False
      with True Cons.prems
      have "hashStringFile_loop ls (push_back_at (length ?line) ?line m) (insert ?line S)
          = (ok, m', S')"
        by (simp add: Let_def set_insert_def)
      from Cons.IH [OF this] new show ?thesis
        unfolding cw by auto
    qed
  qed
qed

lemma hashStringFile_loop_append:
  "hashStringFile_loop pre m0 S0 = (True, m, S) \<Longrightarrow>
   hashStringFile_loop (pre @ ls) m0 S0 = hashStringFile_loop ls m S"
proof (induction pre arbitrary: m0 S0)
  case Nil
  then show ?case by simp
next
  case (Cons l pre)
  let ?line = "cleanWord l"
  show ?case
  proof (cases "length ?line > 0")
    case False
    with Cons.prems have "hashStringFile_loop pre m0 S0 = (True, m, S)"
      by (simp add: Let_def)
    from Cons.IH [OF this] False show ?thesis
      by (simp add: Let_def)
  next
    case True
    show ?thesis
    proof (cases "?line \<in> S0")
      case dup: True
      with True Cons.prems show ?thesis
        by (simp add: Let_def set_insert_def)
    next
      case new: False
      with True Cons.prems
      have "hashStringFile_loop pre (push_back_at (length ?line) ?line m0) (insert ?line S0)
          = (True, m, S)"
        by (simp add: Let_def set_insert_def)
      from Cons.IH [OF this] True new show ?thesis
        by (simp add: Let_def set_insert_def)
    qed
  qed
qed

lemma hashStringFile_stops_at_duplicate:
  assumes pre: "hashStringFile pre = (True, m, S)" and dup: "cleanWord l \<in> S"
  shows "hashStringFile (pre @ l # rest) = (False, m, S)"
proof -
  from pre have loop: "hashStringFile_loop pre [] {} = (True, m, S)"
    by (simp add: hashStringFile_def)
  from hashStringFile_loop_ok [OF loop] have "S = set (cleaned_words pre)"
    by simp
  with dup have ne: "length (cleanWord l) > 0"
    by (auto simp: cleaned_words_def)
  have "hashStringFile (pre @ l # rest) = hashStringFile_loop (l # rest) m S"
    unfolding hashStringFile_def using loop by (rule hashStringFile_loop_append)
  also have "\<dots> = (False, m, S)"
    using ne dup by (simp add: Let_def set_insert_def insert_absorb)
  finally show ?thesis .
qed

lemma distinct_buckets:
  "distinct (map fst m) \<Longrightarrow>
   \<forall>(k, ws) \<in> set m. distinct ws \<and> (\<forall>w \<in> set ws. length w = k) \<Longrightarrow>
   distinct (concat (map snd m))"
proof (induction m)
  case Nil
  then show ?case by simp
next
  case (Cons e m)
  obtain k ws where e: "e = (k, ws)" by (cases e)
  have "set ws \<inter> set (concat (map snd m)) = {}"
  proof (rule ccontr)
    assume "set ws \<inter> set (concat (map snd m)) \<noteq> {}"
    then obtain w k' ws' where "w \<in> set ws" "(k', ws') \<in> set m" "w \<in> set ws'"
      by auto
    from Cons.prems(2) \<open>w \<in> set ws\<close> have "length w = k"
      unfolding e by simp
    moreover from Cons.prems(2) \<open>(k', ws') \<in> set m\<close> \<open>w \<in> set ws'\<close>
    have "length w = k'"
      unfolding e by fastforce
    ultimately have "k = k'" by simp
    with \<open>(k', ws') \<in> set m\<close> have "k \<in> fst ` set m" by force
    with Cons.prems(1) show False unfolding e by simp
  qed
  with Cons show ?case unfolding e by simp
qed

lemma store_inv_buckets:
  assumes "store_inv S m"
  shows "distinct (concat (map snd m))" and "set (concat (map snd m)) = S"
proof -
  from assms have d: "distinct (map fst m)"
    and b: "\<forall>(k, ws) \<in> set m. distinct ws \<and> (\<forall>w \<in> set ws. w \<in> S \<and> length w = k)"
    and c: "\<forall>w \<in> S. w \<in> set (at_key m (length w))"
    unfolding store_inv_def by blast+
  from b have "\<forall>(k, ws) \<in> set m. distinct ws \<and> (\<forall>w \<in> set ws. length w = k)"
    by fast
  with d show "distinct (concat (map snd m))" by (rule distinct_buckets)
  show "set (concat (map snd m)) = S"
  proof
    show "set (concat (map snd m)) \<subseteq> S" using b by fastforce
    show "S \<subseteq> set (concat (map snd m))" using c at_key_in_buckets by blast
  qed
qed

section \<open>Properties of the decomposition test\<close>

text \<open>
  C1: for every store and every word shorter than \<open>2^31\<close>, the range of the variable
  \<^verbatim>\<open>int sublen\<close>, \<open>wordIsMadeOfOtherWords\<close> returns true if and only if the word is a
  concatenation of two or more members of the store, each strictly shorter than the word;
  and the result does not depend on the order of the search: a search that tries the
  prefix lengths \<open>1\<close> to \<open>L - 1\<close> in any other order returns the same.
\<close>

theorem wordIsMadeOfOtherWords_spec:
  assumes "length w < 2 ^ 31"
  shows "(wordIsMadeOfOtherWords w S \<longleftrightarrow> spec_decomposable w S) \<and>
   ((\<forall>L. {k. 0 < k \<and> k < L} \<subseteq> set (ord L)) \<longrightarrow>
      search_in_order ord w S = wordIsMadeOfOtherWords w S)"
proof -
  have "wordIsMadeOfOtherWords w S \<longleftrightarrow> spec_decomposable w S"
  proof
    assume "wordIsMadeOfOtherWords w S"
    then show "spec_decomposable w S" by (rule decomposable_imp_spec)
  next
    assume "spec_decomposable w S"
    then obtain ws where "2 \<le> length ws" "concat ws = w"
      "\<forall>p \<in> set ws. p \<in> S \<and> p \<noteq> []"
      using spec_decomposable_nonempty_pieces by blast
    then show "wordIsMadeOfOtherWords w S"
      using concat_pieces_decomposable by blast
  qed
  then show ?thesis
    using search_in_order_eq by blast
qed

theorem wordIsMadeOfOtherWords_spec_witness:
  "length ''catdog'' < 2 ^ 31 \<and>
   spec_decomposable ''catdog'' {''cat'', ''dog'', ''catdog''} \<and>
   \<not> spec_decomposable ''catdog'' {''cat'', ''do'', ''catdog''} \<and>
   search_in_order (\<lambda>L. [1..<L]) ''catdog'' {''cat'', ''dog'', ''catdog''}"
proof -
  have len: "length ''catdog'' < 2 ^ 31"
    by simp
  have yes: "wordIsMadeOfOtherWords ''catdog'' {''cat'', ''dog'', ''catdog''}"
    by code_simp
  have no: "\<not> wordIsMadeOfOtherWords ''catdog'' {''cat'', ''do'', ''catdog''}"
    by code_simp
  have ord: "\<forall>L. {k. 0 < k \<and> k < L} \<subseteq> set [1..<L]"
    by auto
  from wordIsMadeOfOtherWords_spec
    [OF len, of "{''cat'', ''dog'', ''catdog''}" "\<lambda>L. [1..<L]"] yes ord
  have 1: "spec_decomposable ''catdog'' {''cat'', ''dog'', ''catdog''}"
    and 3: "search_in_order (\<lambda>L. [1..<L]) ''catdog'' {''cat'', ''dog'', ''catdog''}"
    by blast+
  from wordIsMadeOfOtherWords_spec
    [OF len, of "{''cat'', ''do'', ''catdog''}" "\<lambda>L. [1..<L]"] no
  have 2: "\<not> spec_decomposable ''catdog'' {''cat'', ''do'', ''catdog''}"
    by blast
  from len 1 2 3 show ?thesis by blast
qed

text \<open>
  C5: the decomposition test terminates for every word and every store. The function
  \<open>wordIsMadeOfOtherWords\<close> is total: its termination proof above orders the calls by
  the length of the word and then by \<open>sublen\<close>. In numbers: an activation on a word of
  length \<open>L\<close> tests at most \<open>L - 1\<close> primary substrings, every recursive call it makes is
  on a strictly shorter word, and so the relation between a call and the calls it makes is
  well-founded.
\<close>

theorem wordIsMadeOfOtherWords_bounded:
  "fst (wordIsMadeOfOtherWords_trace w S) = wordIsMadeOfOtherWords w S \<and>
   length (prefix_tests w S) \<le> length w - 1 \<and>
   (\<forall>s \<in> set (recursive_calls w S). length s < length w) \<and>
   wf {(s, w). s \<in> set (recursive_calls w S)}"
proof -
  have "fst (wordIsMadeOfOtherWords_trace w S) = wordIsMadeOfOtherWords w S"
    by (simp add: wordIsMadeOfOtherWords_trace_def shrink_loop_trace_result
        wordIsMadeOfOtherWords.simps)
  moreover have "length (prefix_tests w S) \<le> nat (int (length w) - 1)"
    unfolding prefix_tests_def wordIsMadeOfOtherWords_trace_def
    using shrink_loop_trace_tests by blast
  then have "length (prefix_tests w S) \<le> length w - 1" by simp
  moreover have shorter: "length s < length w" if "s \<in> set (recursive_calls w S)" for s w
  proof -
    from that have "\<exists>k::nat. 0 < k \<and> k < length w \<and> s = drop k w"
      unfolding recursive_calls_def wordIsMadeOfOtherWords_trace_def
      by (intro shrink_loop_trace_calls [of "int (length w) - 1" 1 w s S]) simp_all
    then show ?thesis by auto
  qed
  moreover have "wf {(s, w). s \<in> set (recursive_calls w S)}"
  proof (rule wf_subset)
    show "wf (measure length)" by simp
    show "{(s, w). s \<in> set (recursive_calls w S)} \<subseteq> measure length"
      using shorter by auto
  qed
  ultimately show ?thesis by blast
qed


theorem wordIsMadeOfOtherWords_bounded_witness:
  "recursive_calls ''ababc'' {''a'', ''b'', ''ab'', ''abab''} = [''c'', ''abc'', ''babc''] \<and>
   prefix_tests ''ababc'' {''a'', ''b'', ''ab'', ''abab''} = [4, 3, 2, 1] \<and>
   list_all (\<lambda>s. length s < length ''ababc'') [''c'', ''abc'', ''babc''] \<and>
   \<not> wordIsMadeOfOtherWords ''ababc'' {''a'', ''b'', ''ab'', ''abab''}"
proof -
  have t: "wordIsMadeOfOtherWords_trace ''ababc'' {''a'', ''b'', ''ab'', ''abab''} =
      (False, [4, 3, 2, 1], [''c'', ''abc'', ''babc''])"
    by code_simp
  then show ?thesis
    using wordIsMadeOfOtherWords_bounded [of "''ababc''" "{''a'', ''b'', ''ab'', ''abab''}"]
    by (simp add: recursive_calls_def prefix_tests_def)
qed

text \<open>
  C6: the test never takes the whole word or the empty word as a piece. The primary
  substrings it tests have the lengths \<open>L - 1\<close> down to \<open>1\<close> only; adding the word itself
  or the empty word to the store does not change the result; a word in a store that holds
  nothing else is not decomposable.
\<close>

theorem wordIsMadeOfOtherWords_no_self_match:
  "wordIsMadeOfOtherWords w (insert w S) = wordIsMadeOfOtherWords w S \<and>
   wordIsMadeOfOtherWords w (insert [] S) = wordIsMadeOfOtherWords w S \<and>
   \<not> wordIsMadeOfOtherWords w {w} \<and>
   set (prefix_tests w S) \<subseteq> {1 .. int (length w) - 1}"
proof -
  have "wordIsMadeOfOtherWords w (insert w S) = wordIsMadeOfOtherWords w S"
    by (rule engine_depends_on_shorter_members) auto
  moreover have "wordIsMadeOfOtherWords w (insert [] S) = wordIsMadeOfOtherWords w S"
    by (rule engine_depends_on_shorter_members) auto
  moreover have "wordIsMadeOfOtherWords w {w} = wordIsMadeOfOtherWords w {}"
    by (rule engine_depends_on_shorter_members) auto
  then have "\<not> wordIsMadeOfOtherWords w {w}"
    by (simp add: not_decomposable_empty_store)
  moreover have "set (prefix_tests w S) \<subseteq> {1 .. int (length w) - 1}"
    unfolding prefix_tests_def wordIsMadeOfOtherWords_trace_def
    using shrink_loop_trace_tests by blast
  ultimately show ?thesis by blast
qed


theorem wordIsMadeOfOtherWords_no_self_match_witness:
  "\<not> wordIsMadeOfOtherWords ''cat'' (insert ''cat'' {''ca'', ''at''}) \<and>
   \<not> wordIsMadeOfOtherWords ''cat'' {''cat''} \<and>
   set (prefix_tests ''cat'' {''ca'', ''at''}) \<subseteq> {1 .. 2}"
proof -
  have "\<not> wordIsMadeOfOtherWords ''cat'' {''ca'', ''at''}"
    by code_simp
  then show ?thesis
    using wordIsMadeOfOtherWords_no_self_match [of "''cat''" "{''ca'', ''at''}"]
    by simp
qed

section \<open>Properties of the store\<close>

text \<open>
  C8: after the construction of the store from any input file, every word listed in the
  length table is a member of the set and every member of the set is listed; a word is
  listed in the bucket of its own length only, and once. This holds for the store that
  \<open>hashStringFile\<close> leaves behind whether it returns true or false.
\<close>

theorem hashStringFile_store_inv:
  "hashStringFile lines = (ok, m, S) \<Longrightarrow> store_inv S m"
  unfolding hashStringFile_def
  using store_inv_empty by (rule hashStringFile_loop_inv)

theorem hashStringFile_store_inv_witness:
  "hashStringFile [''cat'', '' Dog'', '''', ''catdog'', ''a''] =
     (True, [(3, [''cat'', ''dog'']), (6, [''catdog'']), (1, [''a''])],
      {''cat'', ''dog'', ''catdog'', ''a''}) \<and>
   store_inv {''cat'', ''dog'', ''catdog'', ''a''}
     [(3, [''cat'', ''dog'']), (6, [''catdog'']), (1, [''a''])]"
proof -
  have h: "hashStringFile [''cat'', '' Dog'', '''', ''catdog'', ''a''] =
     (True, [(3, [''cat'', ''dog'']), (6, [''catdog'']), (1, [''a''])],
      {''cat'', ''dog'', ''catdog'', ''a''})"
    by code_simp
  from hashStringFile_store_inv [OF h] h show ?thesis by simp
qed

text \<open>
  C2, as the specification has it: a file with a duplicate word still gives a store and a
  scan result. The code does otherwise: when the set reports that the word was not
  inserted, \<open>hashStringFile\<close> stops and returns false, and \<open>main\<close> prints no result.
\<close>

theorem duplicate_word_fails:
  "\<not> fst (hashStringFile [''cat'', ''dog'', ''Cat '']) \<and>
   main False (Some [''cat'', ''dog'', ''Cat '']) = NoReport"
  by code_simp

text \<open>
  C2, amended: inserting a word that is already in the set leaves the set as it is and
  reports the word as not inserted. \<open>hashStringFile\<close> takes this report as a failure: at
  the first line whose cleaned word is already in the set it stops reading and returns
  false, with the set and the table as the lines before that line have built them, whatever
  lines follow. It returns true exactly when the non-empty cleaned lines of the file are
  pairwise distinct, the set is then the set of these words, and for a file with a
  duplicate \<open>main\<close> prints no scan result.
\<close>

theorem hashStringFile_ok_iff_distinct:
  "(w \<in> S \<longrightarrow> set_insert w S = (S, False)) \<and>
   (hashStringFile pre = (True, m, S') \<and> cleanWord l \<in> S' \<longrightarrow>
      hashStringFile (pre @ l # rest) = (False, m, S')) \<and>
   (fst (hashStringFile lines) \<longleftrightarrow> distinct (cleaned_words lines)) \<and>
   (fst (hashStringFile lines) \<longrightarrow>
      snd (snd (hashStringFile lines)) = set (cleaned_words lines)) \<and>
   (\<not> distinct (cleaned_words lines) \<longrightarrow> main p (Some lines) = NoReport)"
proof -
  obtain ok m' S'' where h: "hashStringFile lines = (ok, m', S'')"
    by (cases "hashStringFile lines") auto
  then have "hashStringFile_loop lines [] {} = (ok, m', S'')"
    by (simp add: hashStringFile_def)
  from hashStringFile_loop_ok [OF this]
  have ok: "ok \<longleftrightarrow> distinct (cleaned_words lines)"
    and S'': "ok \<longrightarrow> S'' = set (cleaned_words lines)"
    by simp_all
  have "w \<in> S \<longrightarrow> set_insert w S = (S, False)"
    by (auto simp: set_insert_def)
  moreover have "hashStringFile pre = (True, m, S') \<and> cleanWord l \<in> S' \<longrightarrow>
      hashStringFile (pre @ l # rest) = (False, m, S')"
    using hashStringFile_stops_at_duplicate by blast
  moreover have "\<not> distinct (cleaned_words lines) \<longrightarrow> main p (Some lines) = NoReport"
    using ok by (simp add: main_def h)
  ultimately show ?thesis
    using ok S'' by (simp add: h)
qed

theorem hashStringFile_ok_iff_distinct_witness:
  "set_insert ''cat'' {''cat'', ''dog''} = ({''cat'', ''dog''}, False) \<and>
   hashStringFile [''cat'', ''dog''] = (True, [(3, [''cat'', ''dog''])], {''cat'', ''dog''}) \<and>
   cleanWord ''Cat '' = ''cat'' \<and>
   hashStringFile ([''cat'', ''dog''] @ ''Cat '' # [''bird'', ''catdog'']) =
     (False, [(3, [''cat'', ''dog''])], {''cat'', ''dog''}) \<and>
   \<not> distinct (cleaned_words [''cat'', ''dog'', ''Cat '']) \<and>
   \<not> fst (hashStringFile [''cat'', ''dog'', ''Cat '']) \<and>
   main True (Some [''cat'', ''dog'', ''Cat '']) = NoReport \<and>
   fst (hashStringFile [''cat'', ''dog'', ''Cats '']) \<and>
   snd (snd (hashStringFile [''cat'', ''dog'', ''Cats ''])) = {''cat'', ''dog'', ''cats''}"
proof -
  have c: "cleaned_words [''cat'', ''dog'', ''Cat ''] = [''cat'', ''dog'', ''cat'']"
    "cleaned_words [''cat'', ''dog'', ''Cats ''] = [''cat'', ''dog'', ''cats'']"
    by code_simp+
  have pre: "hashStringFile [''cat'', ''dog''] =
      (True, [(3, [''cat'', ''dog''])], {''cat'', ''dog''})"
    by code_simp
  have cw: "cleanWord ''Cat '' = ''cat''"
    by code_simp
  have dup: "cleanWord ''Cat '' \<in> {''cat'', ''dog''}"
    unfolding cw by simp
  note a = hashStringFile_ok_iff_distinct
    [of "''cat''" "{''cat'', ''dog''}" "[''cat'', ''dog'']" "[(3, [''cat'', ''dog''])]"
      "{''cat'', ''dog''}" "''Cat ''" "[''bird'', ''catdog'']" "[''cat'', ''dog'', ''Cat '']" True]
  note b = hashStringFile_ok_iff_distinct
    [of "''cat''" "{''cat'', ''dog''}" "[''cat'', ''dog'']" "[(3, [''cat'', ''dog''])]"
      "{''cat'', ''dog''}" "''Cat ''" "[''bird'', ''catdog'']" "[''cat'', ''dog'', ''Cats '']" True]
  from a pre dup
  have stop: "hashStringFile ([''cat'', ''dog''] @ ''Cat '' # [''bird'', ''catdog'']) =
     (False, [(3, [''cat'', ''dog''])], {''cat'', ''dog''})"
    by blast
  from a have 1: "set_insert ''cat'' {''cat'', ''dog''} = ({''cat'', ''dog''}, False)"
    and 2: "\<not> distinct (cleaned_words [''cat'', ''dog'', ''Cat ''])"
    and 3: "\<not> fst (hashStringFile [''cat'', ''dog'', ''Cat ''])"
    and 4: "main True (Some [''cat'', ''dog'', ''Cat '']) = NoReport"
    unfolding c by auto
  from b have 5: "fst (hashStringFile [''cat'', ''dog'', ''Cats ''])"
    and 6: "snd (snd (hashStringFile [''cat'', ''dog'', ''Cats ''])) = {''cat'', ''dog'', ''cats''}"
    unfolding c by auto
  show ?thesis
    by (intro conjI) (rule 1 pre cw stop 2 3 4 5 6)+
qed

section \<open>Properties of the scan\<close>



text \<open>
  C4: for a store in the range of \<^verbatim>\<open>int\<close>, the scan does not stop early. It tries every
  word of every bucket, once, also after the first and the second word are set, and the
  count it returns is the number of decomposable words of the store.
\<close>

theorem scan_counts_every_word:
  assumes "store_inv S m" and "int_range m"
  shows "mset (tried (scan p S m)) = mset (concat (map snd m)) \<and>
     set (tried (scan p S m)) = S \<and>
     fst (findLongestWordsOfWords p S m) =
       int (length (filter (\<lambda>w. wordIsMadeOfOtherWords w S) (tried (scan p S m)))) \<and>
     fst (findLongestWordsOfWords p S m) = int (card {w \<in> S. wordIsMadeOfOtherWords w S})"
proof -
  from assms(1) have d: "distinct (map fst m)" by (simp add: store_inv_def)
  have tr: "tried (scan p S m) = visited p m"
    by (simp add: scan_eq state_of_def)
  have 1: "mset (tried (scan p S m)) = mset (concat (map snd m))"
    unfolding tr using d by (rule mset_visited)
  then have "set (tried (scan p S m)) = set (concat (map snd m))"
    by (rule mset_eq_setD)
  then have 2: "set (tried (scan p S m)) = S"
    using store_inv_buckets(2) [OF assms(1)] by simp
  have "distinct (tried (scan p S m))"
    using 1 store_inv_buckets(1) [OF assms(1)] by (metis mset_eq_imp_distinct_iff)
  then have dist: "distinct (filter (\<lambda>w. wordIsMadeOfOtherWords w S) (tried (scan p S m)))"
    by simp
  have 3: "fst (findLongestWordsOfWords p S m) =
       int (length (filter (\<lambda>w. wordIsMadeOfOtherWords w S) (tried (scan p S m))))"
    unfolding tr by (simp add: findLongestWordsOfWords_def Let_def countFound_scan)
  have "set (filter (\<lambda>w. wordIsMadeOfOtherWords w S) (tried (scan p S m))) =
      {w \<in> S. wordIsMadeOfOtherWords w S}"
    using 2 by auto
  with distinct_card [OF dist]
  have "card {w \<in> S. wordIsMadeOfOtherWords w S} =
      length (filter (\<lambda>w. wordIsMadeOfOtherWords w S) (tried (scan p S m)))"
    by simp
  with 3 have 4: "fst (findLongestWordsOfWords p S m) =
      int (card {w \<in> S. wordIsMadeOfOtherWords w S})"
    by simp
  from 1 2 3 4 show ?thesis by blast
qed

theorem scan_counts_every_word_witness:
  "store_inv {''ab'', ''a'', ''b'', ''ba'', ''abba'', ''baab'', ''abc''}
     [(2, [''ab'', ''ba'']), (1, [''a'', ''b'']), (4, [''abba'', ''baab'']), (3, [''abc''])] \<and>
   int_range
     [(2, [''ab'', ''ba'']), (1, [''a'', ''b'']), (4, [''abba'', ''baab'']), (3, [''abc''])] \<and>
   findLongestWordsOfWords False {''ab'', ''a'', ''b'', ''ba'', ''abba'', ''baab'', ''abc''}
     [(2, [''ab'', ''ba'']), (1, [''a'', ''b'']), (4, [''abba'', ''baab'']), (3, [''abc''])] =
     (4, ''abba'', ''baab'') \<and>
   card {w \<in> {''ab'', ''a'', ''b'', ''ba'', ''abba'', ''baab'', ''abc''}.
     wordIsMadeOfOtherWords w {''ab'', ''a'', ''b'', ''ba'', ''abba'', ''baab'', ''abc''}} = 4"
proof -
  let ?S = "{''ab'', ''a'', ''b'', ''ba'', ''abba'', ''baab'', ''abc''}"
  let ?m = "[(2::nat, [''ab'', ''ba'']), (1, [''a'', ''b'']), (4, [''abba'', ''baab'']),
    (3, [''abc''])]"
  have i: "store_inv ?S ?m"
    by code_simp
  have g: "int_range ?m"
    by (simp add: int_range_def)
  have r: "findLongestWordsOfWords False ?S ?m = (4, ''abba'', ''baab'')"
    by code_simp
  from scan_counts_every_word [OF i g, of False] i g r show ?thesis
    by simp
qed

text \<open>
  C7: an empty file, an empty store and a store without decomposable words are not errors.
  The scan returns the count 0 and two empty words, and \<open>main\<close> reports this result as
  any other.
\<close>

theorem nothing_found_is_reported:
  "main p (Some []) = Report [] [] 0 \<and>
   findLongestWordsOfWords p S [] = (0, [], []) \<and>
   ((\<forall>w \<in> set (concat (map snd m)). \<not> wordIsMadeOfOtherWords w S) \<longrightarrow>
      findLongestWordsOfWords p S m = (0, [], [])) \<and>
   (fst (hashStringFile lines) \<and>
    (\<forall>w \<in> set (cleaned_words lines).
       \<not> wordIsMadeOfOtherWords w (set (cleaned_words lines))) \<longrightarrow>
      main p (Some lines) = Report [] [] 0)"
proof -
  have none: "findLongestWordsOfWords p S m = (0, [], [])"
    if "\<forall>w \<in> set (concat (map snd m)). \<not> wordIsMadeOfOtherWords w S" for S m
  proof -
    from that set_visited [of p m]
    have "filter (\<lambda>w. wordIsMadeOfOtherWords w S) (visited p m) = []"
      by (auto simp: filter_empty_conv)
    then show ?thesis
      by (simp add: findLongestWordsOfWords_def Let_def scan_eq state_of_def)
  qed
  have 2: "findLongestWordsOfWords p S [] = (0, [], [])"
    by (rule none) simp
  have 1: "main p (Some []) = Report [] [] 0"
    by (simp add: main_def hashStringFile_def none)
  have 4: "main p (Some lines) = Report [] [] 0"
    if ok: "fst (hashStringFile lines)"
      and no: "\<forall>w \<in> set (cleaned_words lines).
        \<not> wordIsMadeOfOtherWords w (set (cleaned_words lines))"
  proof -
    obtain b m' S' where h: "hashStringFile lines = (b, m', S')"
      by (cases "hashStringFile lines") auto
    with ok have b: "b" by simp
    from h have "hashStringFile_loop lines [] {} = (b, m', S')"
      by (simp add: hashStringFile_def)
    from hashStringFile_loop_ok [OF this] b have S': "S' = set (cleaned_words lines)"
      by simp
    from h have "hashStringFile_loop lines [] {} = (b, m', S')"
      by (simp add: hashStringFile_def)
    with store_inv_empty have "store_inv S' m'"
      by (rule hashStringFile_loop_inv)
    then have "set (concat (map snd m')) = S'"
      by (rule store_inv_buckets(2))
    with no S' have "\<forall>w \<in> set (concat (map snd m')). \<not> wordIsMadeOfOtherWords w S'"
      by simp
    then have "findLongestWordsOfWords p S' m' = (0, [], [])"
      by (rule none)
    with h b show ?thesis
      by (simp add: main_def)
  qed
  from 1 2 none 4 show ?thesis by blast
qed

theorem nothing_found_is_reported_witness:
  "fst (hashStringFile [''cat'', ''dog'', ''cats'']) \<and>
   cleaned_words [''cat'', ''dog'', ''cats''] = [''cat'', ''dog'', ''cats''] \<and>
   list_all (\<lambda>w. \<not> wordIsMadeOfOtherWords w (set [''cat'', ''dog'', ''cats'']))
     [''cat'', ''dog'', ''cats''] \<and>
   main False (Some [''cat'', ''dog'', ''cats'']) = Report [] [] 0 \<and>
   main False (Some []) = Report [] [] 0"
proof -
  let ?lines = "[''cat'', ''dog'', ''cats'']"
  have ok: "fst (hashStringFile ?lines)"
    by code_simp
  have cw: "cleaned_words ?lines = ?lines"
    by code_simp
  have no: "list_all (\<lambda>w. \<not> wordIsMadeOfOtherWords w (set ?lines)) ?lines"
    by code_simp
  then have "\<forall>w \<in> set (cleaned_words ?lines).
      \<not> wordIsMadeOfOtherWords w (set (cleaned_words ?lines))"
    unfolding cw by (simp only: list_all_iff)
  with ok nothing_found_is_reported [of False "{}" "[]" ?lines]
  have "main False (Some ?lines) = Report [] [] 0" "main False (Some []) = Report [] [] 0"
    by blast+
  with ok cw no show ?thesis by blast
qed

text \<open>
  C9: the count does not depend on \<open>kDoPreSort\<close> or on the order of the words in the
  buckets. The test of a word takes the word and the set only, and two length tables that
  hold the same words, in whatever buckets and order, give the same count for either
  value of the flag.
\<close>

theorem count_independent_of_order:
  assumes "distinct (map fst m)" and "distinct (map fst m')"
    and "mset (concat (map snd m)) = mset (concat (map snd m'))"
  shows "fst (findLongestWordsOfWords p S m) = fst (findLongestWordsOfWords p' S m')"
proof -
  have "countFound (scan p S m) = countFound (scan p' S m')"
    by (simp add: countFound_scan_mset [OF assms(1)] countFound_scan_mset [OF assms(2)]
        assms(3))
  then show ?thesis
    by (simp add: findLongestWordsOfWords_def Let_def)
qed

theorem count_independent_of_order_witness:
  "findLongestWordsOfWords False {''ab'', ''ba'', ''a'', ''b''}
     [(2, [''ba'', ''ab'']), (1, [''a'', ''b''])] = (2, ''ba'', ''ab'') \<and>
   findLongestWordsOfWords True {''ab'', ''ba'', ''a'', ''b''}
     [(2, [''ba'', ''ab'']), (1, [''a'', ''b''])] = (2, ''ab'', ''ba'') \<and>
   fst (findLongestWordsOfWords False {''ab'', ''ba'', ''a'', ''b''}
     [(2, [''ba'', ''ab'']), (1, [''a'', ''b''])]) =
   fst (findLongestWordsOfWords True {''ab'', ''ba'', ''a'', ''b''}
     [(1, [''b'', ''a'']), (2, [''ab'', ''ba''])])"
proof -
  let ?S = "{''ab'', ''ba'', ''a'', ''b''}"
  let ?m = "[(2::nat, [''ba'', ''ab'']), (1, [''a'', ''b''])]"
  let ?m' = "[(1::nat, [''b'', ''a'']), (2, [''ab'', ''ba''])]"
  have 1: "findLongestWordsOfWords False ?S ?m = (2, ''ba'', ''ab'')"
    by code_simp
  have 2: "findLongestWordsOfWords True ?S ?m = (2, ''ab'', ''ba'')"
    by code_simp
  have d: "distinct (map fst ?m)" "distinct (map fst ?m')"
    by simp_all
  have e: "mset (concat (map snd ?m)) = mset (concat (map snd ?m'))"
    by simp
  from count_independent_of_order [OF d e, of False ?S True] 1 2 show ?thesis
    by blast
qed



end
